theory Spec2Isabelle
  imports Main "HOL-Library.Word" "HOL-Library.Multiset"
begin

unbundle bit_operations_syntax

section \<open>The cache simulator of \<open>cache_sim.cpp\<close>\<close>

text \<open>
  The model follows the complete simulator class of \<open>cache_sim.cpp\<close> (the one whose
  constructor takes the two penalties; the source also holds an earlier skeleton of the
  class, whose \<open>run\<close> is empty). C++ \<open>unsigned\<close> and \<open>int\<close> are \<open>32 word\<close>:
  the bits are shared, \<open><\<close> and \<open>\<le>\<close> read them unsigned, \<open><s\<close> and \<open>\<le>s\<close> signed.
  \<open>std::uint64_t\<close> and \<open>std::int64_t\<close> are \<open>64 word\<close>. The two \<open>std::vector<char>\<close>
  only ever hold 0 or 1 and are read as truth values, so they are \<open>bool list\<close>.
  Reading or writing outside a vector or a span, and dividing by zero, are undefined
  behaviour in C++; the model returns an error value there.
\<close>

type_synonym u32 = "32 word"
type_synonym i32 = "32 word"
type_synonym u64 = "64 word"
type_synonym i64 = "64 word"

datatype error = DivisionByZero | OutOfBounds

record cache_sim =
  block_size :: u32
  associativity :: u32
  capacity :: u32
  miss_penalty :: u32
  dirty_wb_penalty :: u32
  set_offset :: i32
  tag_offset :: i32
  set_mask :: i32
  tags :: "u64 list"
  dirty :: "bool list"
  valid :: "bool list"
  priority :: "i32 list"
  writes_stat :: i64
  mem_accesses_stat :: i64
  misses_stat :: i64
  dirty_wb_stat :: i64
  instructions_stat :: i64
  cycles_stat :: i64

subsection \<open>Construction\<close>

text \<open>\<open>std::__popcount\<close> on a 32-bit value: the number of bits that are set.\<close>

definition popcount :: "u32 \<Rightarrow> nat" where
  "popcount w = length (filter (bit w) [0..<32])"

text \<open>
  The constructor. The input file is not part of the model. \<open>resize\<close> on the empty
  vectors fills them with zeros. The two divisions trap on a zero divisor; nothing else
  is checked (\<open>// Assume this divides evenly\<close>). The product
  \<open>block_size * associativity\<close> is an \<open>unsigned\<close> product and wraps.
\<close>

definition CacheSim :: "u32 \<Rightarrow> u32 \<Rightarrow> u32 \<Rightarrow> u32 \<Rightarrow> u32 \<Rightarrow> error + cache_sim" where
  "CacheSim bs a c mp wbp =
     (if bs = 0 then Inl DivisionByZero
      else
        let num_blocks = unat (c div bs);
            block_bits = popcount (bs - 1)
        in if bs * a = 0 then Inl DivisionByZero
           else
             let sets = c div (bs * a);
                 mask = sets - 1;
                 set_bits = popcount mask
             in Inr \<lparr> block_size = bs, associativity = a, capacity = c,
                      miss_penalty = mp, dirty_wb_penalty = wbp,
                      set_offset = of_nat block_bits,
                      tag_offset = of_nat (block_bits + set_bits),
                      set_mask = mask,
                      tags = replicate num_blocks 0,
                      dirty = replicate num_blocks False,
                      valid = replicate num_blocks False,
                      priority = replicate num_blocks 0,
                      writes_stat = 0, mem_accesses_stat = 0, misses_stat = 0,
                      dirty_wb_stat = 0, instructions_stat = 0, cycles_stat = 0 \<rparr>)"

subsection \<open>Address decoding\<close>

text \<open>
  \<open>get_set\<close>: the 64-bit address is shifted right by \<open>set_offset\<close>, and-ed with
  \<open>set_mask\<close> (an \<open>int\<close>, sign-extended to 64 bits for the operation) and the result is
  returned as \<open>int\<close>, which keeps its low 32 bits. \<open>get_tag\<close> shifts by \<open>tag_offset\<close>.
  The shift counts are the bit counts the constructor stored, between 0 and 63.
\<close>

definition get_set :: "cache_sim \<Rightarrow> u64 \<Rightarrow> i32" where
  "get_set s address =
     (let shifted_address = drop_bit (unat (set_offset s)) address
      in ucast (shifted_address AND scast (set_mask s)))"

definition get_tag :: "cache_sim \<Rightarrow> u64 \<Rightarrow> u64" where
  "get_tag s address = drop_bit (unat (tag_offset s)) address"

subsection \<open>Probing the cache\<close>

text \<open>
  The scan over the lines of the set (the \<open>for\<close> loop of \<open>probe\<close>). \<open>base + i\<close> is an
  \<open>unsigned\<close> sum. The result is the index of the hit, if there is one, and the value of
  \<open>invalid_index\<close> when the loop ends. An invalid line overwrites \<open>invalid_index\<close> each
  time one is met.
\<close>

function scan_set :: "cache_sim \<Rightarrow> u32 \<Rightarrow> u64 \<Rightarrow> u32 \<Rightarrow> i32 \<Rightarrow> error + (i32 option \<times> i32)" where
  "scan_set s base tag i invalid_index =
     (if i < associativity s then
        (if unat (base + i) < length (valid s) then
           (if \<not> valid s ! unat (base + i) then scan_set s base tag (i + 1) i
            else if unat (base + i) < length (tags s) then
              (if tag \<noteq> tags s ! unat (base + i) then scan_set s base tag (i + 1) invalid_index
               else Inr (Some i, invalid_index))
            else Inl OutOfBounds)
         else Inl OutOfBounds)
      else Inr (None, invalid_index))"
  by pat_completeness auto

termination
proof (relation "measure (\<lambda>(s, base, tag, i, inv). unat (associativity s) - unat i)")
  show "wf (measure (\<lambda>(s, base, tag, i, inv). unat (associativity s) - unat i))" by simp
next
  fix s :: cache_sim and base :: u32 and tag :: u64 and i :: u32 and invalid_index :: i32
  assume below: "i < associativity s"
  then have "unat i < unat (associativity s)" by (simp add: word_less_nat_alt)
  moreover have "unat (associativity s) < 2 ^ 32" using unsigned_less [of "associativity s"] by simp
  ultimately have "unat i + unat (1 :: u32) < 2 ^ LENGTH(32)" by simp
  then have "unat (i + 1) = unat i + unat (1 :: u32)" by (simp only: unat_add_lem [THEN iffD1])
  with below have smaller: "unat (associativity s) - unat (i + 1) < unat (associativity s) - unat i"
    by (simp add: word_less_nat_alt)
  from smaller show "((s, base, tag, i + 1, i), (s, base, tag, i, invalid_index))
      \<in> measure (\<lambda>(s, base, tag, i, inv). unat (associativity s) - unat i)"
    by simp
  from smaller show "((s, base, tag, i + 1, invalid_index), (s, base, tag, i, invalid_index))
      \<in> measure (\<lambda>(s, base, tag, i, inv). unat (associativity s) - unat i)"
    by simp
qed

declare scan_set.simps [simp del]

text \<open>
  \<open>std::ranges::max_element\<close> over a span of \<open>int\<close>, followed by \<open>std::distance\<close> from
  the beginning: the position of the first greatest element in the signed order, and 0
  (the end, which is the beginning) for an empty span.
\<close>

fun max_element_from :: "i32 list \<Rightarrow> nat \<Rightarrow> i32 \<Rightarrow> nat \<Rightarrow> nat" where
  "max_element_from [] best v i = best"
| "max_element_from (x # xs) best v i =
     (if v <s x then max_element_from xs i x (Suc i) else max_element_from xs best v (Suc i))"

definition max_element :: "i32 list \<Rightarrow> nat" where
  "max_element xs = (case xs of [] \<Rightarrow> 0 | x # rest \<Rightarrow> max_element_from rest 0 x 1)"

text \<open>
  The view \<open>local_priority\<close>: \<open>associativity\<close> elements of \<open>priority\<close> from \<open>base\<close> on.
\<close>

definition local_priority :: "cache_sim \<Rightarrow> u32 \<Rightarrow> i32 list" where
  "local_priority s base = take (unat (associativity s)) (drop (unat base) (priority s))"

text \<open>
  The \<open>std::transform\<close> of \<open>probe\<close>. It writes into the span it reads, and its lambda
  reads \<open>local_priority[index]\<close> from that same span each time it is called: \<open>bump\<close> is
  one call of the lambda on the element at \<open>j\<close> together with the write of its result,
  \<open>pos\<close> being the place of \<open>local_priority[index]\<close>. \<open>p <= local_priority[index]\<close>
  compares two \<open>int\<close>s, \<open>p < associativity\<close> compares as \<open>unsigned\<close>. The elements are
  taken from the first to the last, as the loop of the library's \<open>std::transform\<close> does.
\<close>

definition bump :: "u32 \<Rightarrow> nat \<Rightarrow> i32 list \<Rightarrow> nat \<Rightarrow> i32 list" where
  "bump a pos pr j =
     (let p = pr ! j in pr[j := (if p \<le>s pr ! pos \<and> p < a then p + 1 else p)])"

definition transform_priority :: "u32 \<Rightarrow> nat \<Rightarrow> nat \<Rightarrow> i32 list \<Rightarrow> i32 list" where
  "transform_priority a b pos pr = fold (\<lambda>k pr. bump a pos pr (b + k)) [0..<unat a] pr"

text \<open>
  The line \<open>probe\<close> works on: the line of the hit or, without a hit, the line to
  replace, which is the invalid line that the scan remembered or else the one
  \<open>max_element\<close> finds. \<open>max_element\<close> reads the whole span \<open>local_priority\<close>, and
  \<open>index\<close> is an \<open>int\<close> that takes the distance.
\<close>

definition choose_index :: "cache_sim \<Rightarrow> u32 \<Rightarrow> i32 option \<Rightarrow> i32 \<Rightarrow> error + i32" where
  "choose_index s base found invalid_index =
     (case found of
        Some i \<Rightarrow> Inr i
      | None \<Rightarrow>
          if 0 \<le>s invalid_index then Inr invalid_index
          else if length (priority s) < unat base + unat (associativity s) then Inl OutOfBounds
          else Inr (of_nat (max_element (local_priority s base))))"

definition find_line :: "cache_sim \<Rightarrow> u32 \<Rightarrow> u64 \<Rightarrow> error + (bool \<times> i32)" where
  "find_line s base tag =
     (case scan_set s base tag 0 (- 1) of
        Inl e \<Rightarrow> Inl e
      | Inr (found, invalid_index) \<Rightarrow>
          (case choose_index s base found invalid_index of
             Inl e \<Rightarrow> Inl e
           | Inr index \<Rightarrow> Inr (found \<noteq> None, index)))"

text \<open>
  The rest of \<open>probe\<close>, from the update of the tag to the cycles. Element \<open>index\<close> of a
  span at \<open>data() + base\<close> is element \<open>base + index\<close> of the vector; a span of
  \<open>associativity\<close> elements requires \<open>index\<close> to be below that. The tag is written, and
  the dirty flag of the replaced line read, only without a hit. \<open>cycles\<close> is an \<open>int\<close>
  to which the \<open>unsigned\<close> penalties are added; the returned tuple holds it as
  \<open>std::int64_t\<close>, sign-extended.
\<close>

definition access_line ::
  "cache_sim \<Rightarrow> u32 \<Rightarrow> u64 \<Rightarrow> bool \<Rightarrow> bool \<Rightarrow> i32 \<Rightarrow> error + ((bool \<times> bool \<times> i64) \<times> cache_sim)" where
  "access_line s base tag type hit index =
     (let pos = unat base + unat index
      in if \<not> (0 \<le>s index \<and> index < associativity s) then Inl OutOfBounds
         else if \<not> hit \<and> length (tags s) \<le> pos then Inl OutOfBounds
         else if length (dirty s) \<le> pos then Inl OutOfBounds
         else if length (priority s) < unat base + unat (associativity s) then Inl OutOfBounds
         else
           let tags1 = (if \<not> hit then (tags s)[pos := tag] else tags s);
               dirty_wb = (if \<not> hit then dirty s ! pos else False);
               dirty1 = (dirty s)[pos := type];
               priority1 = transform_priority (associativity s) (unat base) pos (priority s);
               priority2 = priority1[pos := 0];
               cycles0 = (0 :: i32);
               cycles1 = (if \<not> hit then cycles0 + miss_penalty s else cycles0);
               cycles2 = (if dirty_wb then cycles1 + dirty_wb_penalty s else cycles1)
           in Inr ((hit, dirty_wb, scast cycles2),
                   s\<lparr> tags := tags1, dirty := dirty1, priority := priority2 \<rparr>))"

definition probe :: "cache_sim \<Rightarrow> bool \<Rightarrow> u64 \<Rightarrow> error + ((bool \<times> bool \<times> i64) \<times> cache_sim)" where
  "probe s type address =
     (let set = get_set s address;
          tag = get_tag s address;
          base = set * associativity s
      in case find_line s base tag of
           Inl e \<Rightarrow> Inl e
         | Inr (hit, index) \<Rightarrow> access_line s base tag type hit index)"

subsection \<open>Statistics and the run over a trace\<close>

text \<open>
  \<open>update_stats\<close> takes \<open>instructions\<close> and \<open>cycles\<close> as \<open>int\<close> and adds them to 64-bit
  counters (\<open>writes_\<close>, \<open>mem_accesses_\<close> and so on in the source, with the suffix
  \<open>stat\<close> here); the \<open>bool\<close>s count as 0 or 1.
\<close>

definition update_stats :: "cache_sim \<Rightarrow> i32 \<Rightarrow> bool \<Rightarrow> bool \<Rightarrow> bool \<Rightarrow> i32 \<Rightarrow> cache_sim" where
  "update_stats s instructions type hit dirty_wb cycles =
     s\<lparr> mem_accesses_stat := mem_accesses_stat s + 1,
        writes_stat := writes_stat s + (if type then 1 else 0),
        misses_stat := misses_stat s + (if \<not> hit then 1 else 0),
        instructions_stat := instructions_stat s + scast instructions,
        dirty_wb_stat := dirty_wb_stat s + (if dirty_wb then 1 else 0),
        cycles_stat := cycles_stat s + scast cycles \<rparr>"

text \<open>
  \<open>run\<close> over the accesses of the trace, each already parsed into its type, address and
  instruction count. It stops where an access is undefined.
\<close>

fun run :: "cache_sim \<Rightarrow> (bool \<times> u64 \<times> i32) list \<Rightarrow> error + cache_sim" where
  "run s [] = Inr s"
| "run s ((type, address, instructions) # rest) =
     (case probe s type address of
        Inl e \<Rightarrow> Inl e
      | Inr ((hit, dirty_wb, cycles), s1) \<Rightarrow>
          run (update_stats s1 instructions type hit dirty_wb (ucast cycles)) rest)"

subsection \<open>The report\<close>

text \<open>
  \<open>dump_stats\<close> derives two numbers from the counters and prints them: the miss rate
  \<open>(double)misses_ / (double)mem_accesses_ * 100.0\<close> and the instructions per cycle
  \<open>(double)instructions_ / (double)cycles_\<close>. Both are plain \<open>double\<close> divisions of
  converted counters, with no test of the divisor before them. The model returns the two
  numbers and leaves the printing out. A \<open>double\<close> division by zero does not trap: it
  yields a NaN for 0 / 0 and an infinity with the sign of the dividend otherwise. A finite
  quotient stands here as the ratio of the two counters (read as signed 64-bit numbers);
  its rounding to a \<open>double\<close> is not modelled.
\<close>

datatype double = Ratio int int | Infinity bool | NaN

definition double_div :: "i64 \<Rightarrow> i64 \<Rightarrow> double" where
  "double_div x y =
     (if y = 0 then (if x = 0 then NaN else Infinity (sint x < 0))
      else Ratio (sint x) (sint y))"

definition times_100 :: "double \<Rightarrow> double" where
  "times_100 d = (case d of Ratio n m \<Rightarrow> Ratio (n * 100) m | Infinity neg \<Rightarrow> Infinity neg | NaN \<Rightarrow> NaN)"

definition dump_stats :: "cache_sim \<Rightarrow> double \<times> double" where
  "dump_stats s =
     (let miss_rate = times_100 (double_div (misses_stat s) (mem_accesses_stat s));
          ipc = double_div (instructions_stat s) (cycles_stat s)
      in (miss_rate, ipc))"

subsection \<open>Well-formed simulators\<close>

text \<open>
  What the run of a simulator keeps and what makes every access stay inside the vectors:
  the lines of every set that the mask lets through lie inside the four vectors, which
  are equally long, and every slot index fits an \<open>int\<close>.
\<close>

definition well_formed :: "cache_sim \<Rightarrow> bool" where
  "well_formed s \<longleftrightarrow>
     associativity s \<noteq> 0 \<and> associativity s \<le> 2 ^ 31
     \<and> (unat (set_mask s) + 1) * unat (associativity s) \<le> length (valid s)
     \<and> length (valid s) < 2 ^ 32
     \<and> length (tags s) = length (valid s) \<and> length (dirty s) = length (valid s)
     \<and> length (priority s) = length (valid s)"

subsection \<open>The rank update as the specification words it\<close>

text \<open>
  The specification's step 4 for the set at \<open>b\<close> with the accessed line at \<open>pos\<close>: with
  \<open>old_rank\<close> the rank of the accessed line before the update, every other line of the
  set whose rank is at most \<open>old_rank\<close> and below the associativity goes up by one, the
  other ranks stay, and the accessed line gets rank 0. The comparisons are those of the
  source: as \<open>int\<close> against the rank, as \<open>unsigned\<close> against the associativity.
\<close>

definition spec_priority_update :: "u32 \<Rightarrow> nat \<Rightarrow> nat \<Rightarrow> i32 list \<Rightarrow> i32 list" where
  "spec_priority_update a b pos pr =
     (let old_rank = pr ! pos
      in (map (\<lambda>j. if b \<le> j \<and> j < b + unat a \<and> j \<noteq> pos \<and> pr ! j \<le>s old_rank \<and> pr ! j < a
                     then pr ! j + 1 else pr ! j)
            [0..<length pr])[pos := 0])"

subsection \<open>The derived statistics as the specification words them\<close>

text \<open>
  The specification's \<open>derive\<close>: the same two quotients, but a statistic whose
  denominator is zero is reported as undefined (\<open>None\<close>) and its division is not
  performed.
\<close>

definition spec_derive :: "cache_sim \<Rightarrow> double option \<times> double option" where
  "spec_derive s =
     (if mem_accesses_stat s = 0 then None
      else Some (times_100 (double_div (misses_stat s) (mem_accesses_stat s))),
      if cycles_stat s = 0 then None
      else Some (double_div (instructions_stat s) (cycles_stat s)))"

subsection \<open>Simulators used as concrete inputs\<close>

text \<open>
  \<open>main_sim\<close> is the simulator that \<open>main\<close> constructs from its hard-coded settings
  (block size 16, associativity 1, capacity 16384, penalties 30 and 2), and
  \<open>main_sim_filled\<close> is that simulator after a probe of address \<open>0x4000\<close>. \<open>odd_sim\<close> is
  what the constructor returns for block size 3, associativity 1 and capacity 10.
  \<open>main_sim_dirty\<close> is \<open>main_sim\<close> after a write to address 0, \<open>main_sim_written\<close>
  the same with the statistics of that write, and \<open>main_sim_replaced\<close> what a probe
  of address \<open>0x4000\<close> leaves of it.
\<close>

definition main_sim :: cache_sim where
  "main_sim = \<lparr> block_size = 16, associativity = 1, capacity = 16384,
                 miss_penalty = 30, dirty_wb_penalty = 2,
                 set_offset = 4, tag_offset = 14, set_mask = 1023,
                 tags = replicate 1024 0,
                 dirty = replicate 1024 False,
                 valid = replicate 1024 False,
                 priority = replicate 1024 0,
                 writes_stat = 0, mem_accesses_stat = 0, misses_stat = 0,
                 dirty_wb_stat = 0, instructions_stat = 0, cycles_stat = 0 \<rparr>"

definition main_sim_filled :: cache_sim where
  "main_sim_filled = main_sim\<lparr> tags := (replicate 1024 0)[0 := 1] \<rparr>"

definition odd_sim :: cache_sim where
  "odd_sim = \<lparr> block_size = 3, associativity = 1, capacity = 10,
                 miss_penalty = 30, dirty_wb_penalty = 2,
                 set_offset = 1, tag_offset = 2, set_mask = 2,
                 tags = [0, 0, 0],
                 dirty = [False, False, False],
                 valid = [False, False, False],
                 priority = [0, 0, 0],
                 writes_stat = 0, mem_accesses_stat = 0, misses_stat = 0,
                 dirty_wb_stat = 0, instructions_stat = 0, cycles_stat = 0 \<rparr>"

definition main_sim_dirty :: cache_sim where
  "main_sim_dirty = main_sim\<lparr> dirty := (replicate 1024 False)[0 := True] \<rparr>"

definition main_sim_written :: cache_sim where
  "main_sim_written = main_sim_dirty\<lparr> writes_stat := 1, mem_accesses_stat := 1, misses_stat := 1,
                                      instructions_stat := 1, cycles_stat := 30 \<rparr>"

definition main_sim_replaced :: cache_sim where
  "main_sim_replaced = main_sim_written\<lparr> tags := (replicate 1024 0)[0 := 1],
                                         dirty := replicate 1024 False \<rparr>"

text \<open>
  \<open>two_way_sim\<close> is what the constructor returns for block size 16, associativity 2 and
  capacity 64: two sets of two lines. The simulators \<open>four_way_\<close>\<dots> have one set of four
  lines with block size 16: \<open>four_way_full\<close> holds the tags 10 to 13 in valid lines with
  the ranks 1, 2, 0, 3; \<open>four_way_tied\<close> has the ranks 1, 3, 0, 3 instead, and
  \<open>four_way_partial\<close> has lines 0 and 2 invalid.
\<close>

definition two_way_sim :: cache_sim where
  "two_way_sim = \<lparr> block_size = 16, associativity = 2, capacity = 64,
                    miss_penalty = 30, dirty_wb_penalty = 2,
                    set_offset = 4, tag_offset = 5, set_mask = 1,
                    tags = [0, 0, 0, 0],
                    dirty = [False, False, False, False],
                    valid = [False, False, False, False],
                    priority = [0, 0, 0, 0],
                    writes_stat = 0, mem_accesses_stat = 0, misses_stat = 0,
                    dirty_wb_stat = 0, instructions_stat = 0, cycles_stat = 0 \<rparr>"

definition four_way_full :: cache_sim where
  "four_way_full = \<lparr> block_size = 16, associativity = 4, capacity = 64,
                      miss_penalty = 30, dirty_wb_penalty = 2,
                      set_offset = 4, tag_offset = 4, set_mask = 0,
                      tags = [10, 11, 12, 13],
                      dirty = [False, True, False, False],
                      valid = [True, True, True, True],
                      priority = [1, 2, 0, 3],
                      writes_stat = 0, mem_accesses_stat = 0, misses_stat = 0,
                      dirty_wb_stat = 0, instructions_stat = 0, cycles_stat = 0 \<rparr>"

definition four_way_tied :: cache_sim where
  "four_way_tied = four_way_full\<lparr> priority := [1, 3, 0, 3] \<rparr>"

definition four_way_partial :: cache_sim where
  "four_way_partial = four_way_full\<lparr> valid := [False, True, False, True] \<rparr>"



definition free_miss_sim :: cache_sim where
  "free_miss_sim = main_sim\<lparr> miss_penalty := 0, dirty_wb_penalty := 0,
                               mem_accesses_stat := 1, misses_stat := 1, instructions_stat := 5 \<rparr>"

section \<open>Properties\<close>

subsection \<open>Construction and address decoding\<close>

lemma filter_less_upt: "n \<le> m \<Longrightarrow> filter (\<lambda>k. k < n) [0..<m] = [0..<n]"
proof (induction m)
  case 0
  then show ?case by simp
next
  case (Suc m)
  show ?case
  proof (cases "n \<le> m")
    case True
    with Suc.IH show ?thesis by simp
  next
    case False
    with Suc.prems have "n = Suc m" by simp
    then show ?thesis by simp
  qed
qed

lemma popcount_mask: "n \<le> 32 \<Longrightarrow> popcount (mask n) = n"
proof -
  assume n: "n \<le> 32"
  have "filter (bit (mask n :: u32)) [0..<32] = filter (\<lambda>k. k < n) [0..<32]"
    by (rule filter_cong) (auto simp: bit_simps)
  also have "\<dots> = [0..<n]" using n by (rule filter_less_upt)
  finally show ?thesis by (simp add: popcount_def)
qed

lemma popcount_15: "popcount 15 = 4"
  using popcount_mask [of 4] by (simp add: mask_eq_exp_minus_1)

lemma popcount_1023: "popcount 1023 = 10"
  using popcount_mask [of 10] by (simp add: mask_eq_exp_minus_1)

lemma popcount_2: "popcount 2 = 1"
  by code_simp

lemma masked_set_value:
  "k < 32 \<Longrightarrow> sint (ucast ((x :: u64) AND scast (mask k :: i32)) :: i32) = uint (x AND mask k)"
  by (rule bit_eqI) (auto simp: bit_simps)

lemma CacheSim_Inr:
  assumes "CacheSim bs a c mp wbp = Inr s"
  shows "bs \<noteq> 0" and "bs * a \<noteq> 0"
    and "set_offset s = of_nat (popcount (bs - 1))"
    and "set_mask s = c div (bs * a) - 1"
    and "tag_offset s = of_nat (popcount (bs - 1) + popcount (c div (bs * a) - 1))"
  using assms by (auto simp: CacheSim_def Let_def split: if_splits)

lemma main_sim_constructed: "CacheSim 16 1 16384 30 2 = Inr main_sim"
  by (simp add: CacheSim_def Let_def popcount_15 popcount_1023 main_sim_def)

lemma decoder_general:
  assumes ctor: "CacheSim bs a c mp wbp = Inr s"
    and bs: "bs = 2 ^ b" and b: "b < 32"
    and sets: "c div (bs * a) = 2 ^ k" and k: "k < 32"
  shows "sint (get_set s address) = uint (drop_bit b address AND (2 ^ k - 1))"
    and "get_tag s address = drop_bit (b + k) address"
proof -
  have pb: "popcount (bs - 1) = b"
    using popcount_mask [of b] b bs by (simp add: mask_eq_exp_minus_1)
  have pk: "popcount (c div (bs * a) - 1) = k"
    using popcount_mask [of k] k sets by (simp add: mask_eq_exp_minus_1)
  have so: "unat (set_offset s) = b"
    using CacheSim_Inr(3) [OF ctor] pb b by (simp add: unat_of_nat)
  have to: "unat (tag_offset s) = b + k"
    using CacheSim_Inr(5) [OF ctor] pb pk b k by (simp add: unat_of_nat del: of_nat_add)
  have sm: "set_mask s = mask k"
    using CacheSim_Inr(4) [OF ctor] sets by (simp add: mask_eq_exp_minus_1)
  show "sint (get_set s address) = uint (drop_bit b address AND (2 ^ k - 1))"
    using masked_set_value [OF k, of "drop_bit b address"]
    by (simp add: get_set_def so sm mask_eq_exp_minus_1)
  show "get_tag s address = drop_bit (b + k) address"
    by (simp add: get_tag_def to)
qed

text \<open>
  Claim C7. When the block size is \<open>2 ^ b\<close> and the number of sets
  \<open>capacity / (block_size * associativity)\<close> is \<open>2 ^ k\<close>, the set index that the
  constructed simulator decodes from any 64-bit address is
  \<open>(address >> b) & (2 ^ k - 1)\<close>, a non-negative \<open>int\<close>, and the tag is
  \<open>address >> (b + k)\<close>. With block size 16, associativity 1 and capacity 16384 the
  addresses \<open>0x0\<close> and \<open>0x4000\<close> have the same set index and different tags.
\<close>

theorem decoder_computes_fields:
  assumes "CacheSim bs a c mp wbp = Inr s"
    and "bs = 2 ^ b" and "b < 32"
    and "c div (bs * a) = 2 ^ k" and "k < 32"
  shows "sint (get_set s address) = uint (drop_bit b address AND (2 ^ k - 1))
       \<and> get_tag s address = drop_bit (b + k) address
       \<and> (bs = 16 \<and> a = 1 \<and> c = 16384 \<longrightarrow>
            get_set s 0 = get_set s 0x4000 \<and> get_tag s 0 \<noteq> get_tag s 0x4000)"
proof -
  have "get_set s 0 = get_set s 0x4000 \<and> get_tag s 0 \<noteq> get_tag s 0x4000"
    if "bs = 16 \<and> a = 1 \<and> c = 16384"
  proof -
    from that assms(1) have so: "set_offset s = 4" and sm: "set_mask s = 1023" and to: "tag_offset s = 14"
      by (auto simp: CacheSim_def Let_def popcount_15 popcount_1023)
    show ?thesis
      by (simp add: get_set_def get_tag_def so sm to)
  qed
  with decoder_general [OF assms] show ?thesis by blast
qed

theorem decoder_computes_fields_witness:
  "CacheSim 16 1 16384 30 2 = Inr main_sim \<and> (16 :: u32) = 2 ^ 4 \<and> (4 :: nat) < 32
   \<and> (16384 :: u32) div (16 * 1) = 2 ^ 10 \<and> (10 :: nat) < 32
   \<and> sint (get_set main_sim 0x4010) = uint (drop_bit 4 (0x4010 :: u64) AND (2 ^ 10 - 1))
   \<and> sint (get_set main_sim 0x4010) = 1
   \<and> get_tag main_sim 0x4010 = 1
   \<and> get_set main_sim 0 = get_set main_sim 0x4000
   \<and> get_tag main_sim 0 \<noteq> get_tag main_sim 0x4000"
proof -
  have h1: "CacheSim 16 1 16384 30 2 = Inr main_sim" by (rule main_sim_constructed)
  have h2: "(16 :: u32) = 2 ^ 4" by simp
  have h3: "(4 :: nat) < 32" by simp
  have h4: "(16384 :: u32) div (16 * 1) = 2 ^ 10" by simp
  have h5: "(10 :: nat) < 32" by simp
  show ?thesis
    using decoder_computes_fields [OF h1 h2 h3 h4 h5, of "0x4010"] h1
    by simp
qed

lemma replicate_3: "replicate 3 x = [x, x, x]"
  by (simp add: numeral_3_eq_3)

lemma odd_sim_constructed: "CacheSim 3 1 10 30 2 = Inr odd_sim"
  by (simp add: CacheSim_def Let_def popcount_2 odd_sim_def replicate_3)

subsection \<open>Repeated probes of one address\<close>

text \<open>
  Claim C1 at the simulator of \<open>main\<close>: the first probe of address \<open>0x4000\<close> misses
  and writes the tag 1 into line 0 of set 0, and the second probe of the same address
  misses again, since the line is still invalid.
\<close>

theorem second_probe_misses:
  "CacheSim 16 1 16384 30 2 = Inr main_sim
   \<and> probe main_sim False 0x4000 = Inr ((False, False, 30), main_sim_filled)
   \<and> probe main_sim_filled False 0x4000 = Inr ((False, False, 30), main_sim_filled)"
  by (simp add: main_sim_constructed probe_def get_set_def get_tag_def find_line_def
      choose_index_def access_line_def transform_priority_def bump_def Let_def
      scan_set.simps main_sim_filled_def main_sim_def list_update_same_conv)

subsection \<open>Cycles of a probe\<close>

lemma access_line_result:
  assumes "access_line s base tag type hit index = Inr ((h, wb, cyc), s')"
  shows "h = hit"
    and "cyc = scast ((if hit then 0 else miss_penalty s) + (if wb then dirty_wb_penalty s else 0))"
    and "hit \<longrightarrow> \<not> wb"
    and "valid s' = valid s"
    and "misses_stat s' = misses_stat s"
    and "mem_accesses_stat s' = mem_accesses_stat s"
  using assms by (auto simp: access_line_def Let_def split: if_splits)

lemma probe_Inr:
  assumes "probe s type address = Inr ((hit, wb, cyc), s')"
  obtains index where
    "find_line s (get_set s address * associativity s) (get_tag s address) = Inr (hit, index)"
    and "access_line s (get_set s address * associativity s) (get_tag s address) type hit index
           = Inr ((hit, wb, cyc), s')"
proof -
  let ?base = "get_set s address * associativity s"
  let ?tag = "get_tag s address"
  from assms obtain h index where f: "find_line s ?base ?tag = Inr (h, index)"
    by (cases "find_line s ?base ?tag") (auto simp: probe_def Let_def)
  with assms have a: "access_line s ?base ?tag type h index = Inr ((hit, wb, cyc), s')"
    by (simp add: probe_def Let_def)
  from access_line_result(1) [OF a] have "hit = h" .
  with f a that show thesis by simp
qed

lemma probe_result:
  assumes "probe s type address = Inr ((hit, wb, cyc), s')"
  shows "cyc = scast ((if hit then 0 else miss_penalty s) + (if wb then dirty_wb_penalty s else 0))"
    and "hit \<longrightarrow> \<not> wb"
    and "valid s' = valid s"
    and "misses_stat s' = misses_stat s"
    and "mem_accesses_stat s' = mem_accesses_stat s"
proof -
  from assms obtain index where
    acc: "access_line s (get_set s address * associativity s) (get_tag s address) type hit index
            = Inr ((hit, wb, cyc), s')"
    by (rule probe_Inr)
  from access_line_result(2) [OF acc]
  show "cyc = scast ((if hit then 0 else miss_penalty s) + (if wb then dirty_wb_penalty s else 0))" .
  from access_line_result(3) [OF acc] show "hit \<longrightarrow> \<not> wb" .
  from access_line_result(4) [OF acc] show "valid s' = valid s" .
  from access_line_result(5) [OF acc] show "misses_stat s' = misses_stat s" .
  from access_line_result(6) [OF acc] show "mem_accesses_stat s' = mem_accesses_stat s" .
qed

lemma sint_scast_i32: "sint (scast (x :: i32) :: i64) = sint x"
  by (rule bit_eqI) (auto simp: bit_simps min_def)

lemma sint_small: "uint (x :: u32) < 2 ^ 31 \<Longrightarrow> sint x = uint x"
proof -
  assume small: "uint x < 2 ^ 31"
  have "sint x = signed_take_bit (LENGTH(32) - Suc 0) (uint x)" by (rule sint_uint)
  moreover have "- (2 ^ 31) \<le> uint x" by (rule order_trans [OF _ uint_nonnegative]) simp
  ultimately show ?thesis
    using small signed_take_bit_int_eq_self [of 31 "uint x"] by simp
qed

lemma uint_sum_small:
  "uint (x :: u32) + uint (y :: u32) < 2 ^ 31 \<Longrightarrow> uint (x + y) = uint x + uint y"
  by (simp add: uint_word_ariths)

text \<open>
  Claim C8, amended. The cycle count that a probe returns is the 32-bit sum of the miss
  penalty (without a hit) and the dirty write-back penalty (with a dirty write-back),
  read as a signed \<open>int\<close>; when the two penalties add up to less than \<open>2 ^ 31\<close> it
  is their sum as a number, so 0 for a hit without write-back and
  \<open>miss_penalty + dirty_wb_penalty\<close> for a miss with a dirty victim.
\<close>

theorem probe_cycles_wrap:
  assumes "map_sum id fst (probe s type address) = Inr (hit, dirty_wb, cycles)"
  shows "cycles = scast ((if hit then 0 else miss_penalty s)
                         + (if dirty_wb then dirty_wb_penalty s else 0))
       \<and> (uint (miss_penalty s) + uint (dirty_wb_penalty s) < 2 ^ 31 \<longrightarrow>
            sint cycles = (if hit then 0 else uint (miss_penalty s))
                          + (if dirty_wb then uint (dirty_wb_penalty s) else 0))"
proof -
  let ?sum = "(if hit then 0 else miss_penalty s) + (if dirty_wb then dirty_wb_penalty s else 0)"
  from assms obtain s' where "probe s type address = Inr ((hit, dirty_wb, cycles), s')"
    by (cases "probe s type address") auto
  then have wrap: "cycles = scast ?sum" by (rule probe_result(1))
  have "sint cycles = (if hit then 0 else uint (miss_penalty s))
                      + (if dirty_wb then uint (dirty_wb_penalty s) else 0)"
    if small: "uint (miss_penalty s) + uint (dirty_wb_penalty s) < 2 ^ 31"
  proof -
    have "uint (if hit then 0 else miss_penalty s) \<le> uint (miss_penalty s)"
      and "uint (if dirty_wb then dirty_wb_penalty s else 0) \<le> uint (dirty_wb_penalty s)"
      by simp_all
    with small have parts: "uint (if hit then 0 else miss_penalty s)
                 + uint (if dirty_wb then dirty_wb_penalty s else 0) < 2 ^ 31"
      by linarith
    then have "uint ?sum = uint (if hit then 0 else miss_penalty s)
                           + uint (if dirty_wb then dirty_wb_penalty s else 0)"
      by (rule uint_sum_small)
    moreover have "sint (scast ?sum :: i64) = uint ?sum"
      using parts calculation by (simp only: sint_scast_i32 sint_small)
    ultimately show ?thesis using wrap by simp
  qed
  with wrap show ?thesis by blast
qed

theorem probe_cycles_wrap_witness:
  "map_sum id fst (probe main_sim_dirty False 0x4000) = Inr (False, True, 32)
   \<and> (32 :: i64) = scast (miss_penalty main_sim_dirty + dirty_wb_penalty main_sim_dirty)
   \<and> uint (miss_penalty main_sim_dirty) + uint (dirty_wb_penalty main_sim_dirty) < 2 ^ 31
   \<and> sint (32 :: i64) = uint (miss_penalty main_sim_dirty) + uint (dirty_wb_penalty main_sim_dirty)
   \<and> map_sum id fst (probe four_way_full False 0xA0) = Inr (True, False, 0)
   \<and> uint (miss_penalty four_way_full) + uint (dirty_wb_penalty four_way_full) < 2 ^ 31
   \<and> sint (0 :: i64) = 0"
proof -
  have miss: "map_sum id fst (probe main_sim_dirty False 0x4000) = Inr (False, True, 32)"
    by (simp add: probe_def get_set_def get_tag_def find_line_def
      choose_index_def access_line_def transform_priority_def bump_def Let_def
      scan_set.simps main_sim_dirty_def main_sim_def)
  have hit: "map_sum id fst (probe four_way_full False 0xA0) = Inr (True, False, 0)"
    by (simp add: probe_def get_set_def get_tag_def find_line_def
      choose_index_def access_line_def Let_def scan_set.simps four_way_full_def)
  have "(32 :: i64) = scast (miss_penalty main_sim_dirty + dirty_wb_penalty main_sim_dirty)
      \<and> uint (miss_penalty main_sim_dirty) + uint (dirty_wb_penalty main_sim_dirty) < 2 ^ 31
      \<and> sint (32 :: i64) = uint (miss_penalty main_sim_dirty) + uint (dirty_wb_penalty main_sim_dirty)"
    using probe_cycles_wrap [OF miss] by (simp add: main_sim_dirty_def main_sim_def)
  moreover have "uint (miss_penalty four_way_full) + uint (dirty_wb_penalty four_way_full) < 2 ^ 31
      \<and> sint (0 :: i64) = 0"
    using probe_cycles_wrap [OF hit] by (simp add: four_way_full_def)
  ultimately show ?thesis using miss hit by simp
qed

text \<open>
  Claim C8 as stated fails for a miss penalty of \<open>2 ^ 31\<close>: the probe misses without a
  write-back and returns \<open>- 2 ^ 31\<close> cycles.
\<close>

theorem large_penalty_cycles_negative:
  "CacheSim 16 1 16384 2147483648 2 = Inr (main_sim\<lparr> miss_penalty := 2147483648 \<rparr>)
   \<and> map_sum id fst (probe (main_sim\<lparr> miss_penalty := 2147483648 \<rparr>) False 0)
       = Inr (False, False, - 2147483648)
   \<and> sint (- 2147483648 :: i64) \<noteq> uint (miss_penalty (main_sim\<lparr> miss_penalty := 2147483648 \<rparr>))"
  by (simp add: CacheSim_def popcount_15 popcount_1023 probe_def get_set_def get_tag_def find_line_def
      choose_index_def access_line_def transform_priority_def bump_def Let_def
      scan_set.simps main_sim_def)

subsection \<open>The valid flags\<close>

lemma scan_set_all_invalid:
  "(\<forall>v \<in> set (valid s). \<not> v) \<Longrightarrow> scan_set s base tag i iv = Inr (found, iv')
     \<Longrightarrow> found = None"
proof (induction s base tag i iv rule: scan_set.induct)
  case (1 s base tag i invalid_index)
  show ?case
  proof (cases "i < associativity s \<and> unat (base + i) < length (valid s)")
    case True
    with "1.prems"(1) have nv: "\<not> valid s ! unat (base + i)" using nth_mem by blast
    with True "1.prems"(2) have "scan_set s base tag (i + 1) i = Inr (found, iv')"
      by (simp add: scan_set.simps [of s base tag i])
    with "1.IH"(1) True nv "1.prems"(1) show ?thesis by simp
  next
    case False
    with "1.prems"(2) show ?thesis
      by (auto simp: scan_set.simps [of s base tag i] split: if_splits)
  qed
qed

lemma find_line_all_invalid:
  assumes "\<forall>v \<in> set (valid s). \<not> v" and "find_line s base tag = Inr (hit, index)"
  shows "\<not> hit"
proof -
  from assms(2) obtain found iv where sc: "scan_set s base tag 0 (- 1) = Inr (found, iv)"
    and h: "hit = (found \<noteq> None)"
    by (auto simp: find_line_def split: sum.splits)
  from scan_set_all_invalid [OF assms(1) sc] h show ?thesis by simp
qed

lemma probe_all_invalid:
  assumes "\<forall>v \<in> set (valid s). \<not> v" and "probe s type address = Inr ((hit, wb, cyc), s')"
  shows "\<not> hit"
proof -
  from assms(2) obtain index where
    "find_line s (get_set s address * associativity s) (get_tag s address) = Inr (hit, index)"
    by (rule probe_Inr)
  with assms(1) show ?thesis by (rule find_line_all_invalid)
qed

lemma update_stats_valid: "valid (update_stats s n type hit wb cyc) = valid s"
  by (simp add: update_stats_def)

lemma run_valid: "run s trace = Inr s' \<Longrightarrow> valid s' = valid s"
proof (induction trace arbitrary: s)
  case Nil
  then show ?case by simp
next
  case (Cons x trace)
  obtain type address n where x: "x = (type, address, n)" by (cases x) auto
  from Cons.prems x obtain hit wb cyc s1 where
    p: "probe s type address = Inr ((hit, wb, cyc), s1)"
    and r: "run (update_stats s1 n type hit wb (ucast cyc)) trace = Inr s'"
    by (auto split: sum.splits)
  from Cons.IH [OF r] probe_result(3) [OF p] show ?case
    by (simp add: update_stats_valid)
qed

lemma run_all_misses:
  "(\<forall>v \<in> set (valid s). \<not> v) \<Longrightarrow> run s trace = Inr s' \<Longrightarrow>
     misses_stat s' = misses_stat s + of_nat (length trace)
     \<and> mem_accesses_stat s' = mem_accesses_stat s + of_nat (length trace)"
proof (induction trace arbitrary: s)
  case Nil
  then show ?case by simp
next
  case (Cons x trace)
  obtain type address n where x: "x = (type, address, n)" by (cases x) auto
  from Cons.prems(2) x obtain hit wb cyc s1 where
    p: "probe s type address = Inr ((hit, wb, cyc), s1)"
    and r: "run (update_stats s1 n type hit wb (ucast cyc)) trace = Inr s'"
    by (auto split: sum.splits)
  from probe_all_invalid [OF Cons.prems(1) p] have miss: "\<not> hit" .
  have v1: "valid (update_stats s1 n type hit wb (ucast cyc)) = valid s"
    using probe_result(3) [OF p] by (simp add: update_stats_valid)
  have stats: "misses_stat s1 = misses_stat s" "mem_accesses_stat s1 = mem_accesses_stat s"
    using probe_result(4,5) [OF p] by simp_all
  from Cons.IH [OF _ r] v1 Cons.prems(1) miss stats show ?case
    by (simp add: update_stats_def)
qed

lemma CacheSim_initial:
  assumes "CacheSim bs a c mp wbp = Inr s"
  shows "valid s = replicate (unat (c div bs)) False"
    and "misses_stat s = 0" and "mem_accesses_stat s = 0"
  using assms by (auto simp: CacheSim_def Let_def split: if_splits)

text \<open>
  Claim C2. In the simulator that any trace leaves behind after construction, every
  valid flag is still false, and every access of the trace was counted as a miss. A
  probe of that simulator reports no hit and leaves the valid flags as they are. (Each
  probe of a run starts from the simulator that the accesses before it left behind.)
\<close>

theorem valid_flags_stay_false:
  assumes "CacheSim bs a c mp wbp = Inr s0"
    and "run s0 trace = Inr s"
    and "probe s type address = Inr ((hit, dirty_wb, cycles), s')"
  shows "valid s = replicate (unat (c div bs)) False
       \<and> valid s' = valid s
       \<and> \<not> hit
       \<and> misses_stat s = of_nat (length trace)
       \<and> mem_accesses_stat s = of_nat (length trace)"
proof -
  have v0: "valid s0 = replicate (unat (c div bs)) False"
    using assms(1) by (rule CacheSim_initial(1))
  with run_valid [OF assms(2)] have v: "valid s = replicate (unat (c div bs)) False" by simp
  then have none: "\<forall>v \<in> set (valid s). \<not> v" by simp
  from v0 have "\<forall>v \<in> set (valid s0). \<not> v" by simp
  from run_all_misses [OF this assms(2)] CacheSim_initial(2,3) [OF assms(1)]
  have "misses_stat s = of_nat (length trace)" "mem_accesses_stat s = of_nat (length trace)"
    by simp_all
  with v probe_result(3) [OF assms(3)] probe_all_invalid [OF none assms(3)]
  show ?thesis by simp
qed

lemma run_main_write: "run main_sim [(True, 0, 1)] = Inr main_sim_written"
  by (simp add: probe_def get_set_def get_tag_def find_line_def
      choose_index_def access_line_def transform_priority_def bump_def Let_def
      scan_set.simps update_stats_def main_sim_written_def main_sim_dirty_def main_sim_def
      list_update_same_conv)

lemma probe_main_written:
  "probe main_sim_written False 0x4000 = Inr ((False, True, 32), main_sim_replaced)"
  by (simp add: probe_def get_set_def get_tag_def find_line_def
      choose_index_def access_line_def transform_priority_def bump_def Let_def
      scan_set.simps main_sim_replaced_def main_sim_written_def main_sim_dirty_def main_sim_def
      list_update_same_conv)

theorem valid_flags_stay_false_witness:
  "CacheSim 16 1 16384 30 2 = Inr main_sim
   \<and> run main_sim [(True, 0, 1)] = Inr main_sim_written
   \<and> probe main_sim_written False 0x4000 = Inr ((False, True, 32), main_sim_replaced)
   \<and> valid main_sim_written = replicate 1024 False
   \<and> valid main_sim_replaced = valid main_sim_written
   \<and> misses_stat main_sim_written = 1
   \<and> mem_accesses_stat main_sim_written = 1"
proof -
  have n: "unat (16384 div 16 :: u32) = 1024" by simp
  have l: "length [(True, 0 :: u64, 1 :: i32)] = 1" by simp
  from valid_flags_stay_false [OF main_sim_constructed run_main_write probe_main_written]
  have "valid main_sim_written = replicate 1024 False
   \<and> valid main_sim_replaced = valid main_sim_written
   \<and> misses_stat main_sim_written = 1
   \<and> mem_accesses_stat main_sim_written = 1"
    unfolding n l by simp
  with main_sim_constructed run_main_write probe_main_written show ?thesis by blast
qed

subsection \<open>The line that a miss replaces\<close>

lemma unat_succ_below: "i < (a :: u32) \<Longrightarrow> unat (i + 1) = Suc (unat i)"
proof -
  assume "i < a"
  then have "unat i < unat a" by (simp add: word_less_nat_alt)
  moreover have "unat a < 2 ^ 32" using unsigned_less [of a] by simp
  ultimately have "unat i + unat (1 :: u32) < 2 ^ LENGTH(32)" by simp
  then have "unat (i + 1) = unat i + unat (1 :: u32)" by (simp only: unat_add_lem [THEN iffD1])
  then show ?thesis by simp
qed

lemma succ_le_iff: "i < (a :: u32) \<Longrightarrow> i + 1 \<le> j \<longleftrightarrow> i < j"
  by (simp add: word_le_nat_alt word_less_nat_alt unat_succ_below Suc_le_eq)

lemma scan_set_miss:
  "scan_set s base tag i iv = Inr (None, iv') \<Longrightarrow>
     (iv' = iv \<and> (\<forall>j. i \<le> j \<and> j < associativity s \<longrightarrow> valid s ! unat (base + j)))
   \<or> (i \<le> iv' \<and> iv' < associativity s \<and> \<not> valid s ! unat (base + iv')
        \<and> (\<forall>j. iv' < j \<and> j < associativity s \<longrightarrow> valid s ! unat (base + j)))"
proof (induction s base tag i iv rule: scan_set.induct)
  case (1 s base tag i iv)
  note res = "1.prems"
  show ?case
  proof (cases "i < associativity s")
    case False
    with res have "iv' = iv" by (simp add: scan_set.simps [of s base tag i iv])
    with False show ?thesis by auto
  next
    case below: True
    with res have inr: "unat (base + i) < length (valid s)"
      by (simp add: scan_set.simps [of s base tag i iv] split: if_splits)
    show ?thesis
    proof (cases "valid s ! unat (base + i)")
      case False
      with below inr res have "scan_set s base tag (i + 1) i = Inr (None, iv')"
        by (simp add: scan_set.simps [of s base tag i iv])
      from "1.IH"(1) [OF below inr False this]
      show ?thesis
      proof
        assume "iv' = i \<and> (\<forall>j. i + 1 \<le> j \<and> j < associativity s \<longrightarrow> valid s ! unat (base + j))"
        with below False show ?thesis by (simp add: succ_le_iff)
      next
        assume "i + 1 \<le> iv' \<and> iv' < associativity s \<and> \<not> valid s ! unat (base + iv')
          \<and> (\<forall>j. iv' < j \<and> j < associativity s \<longrightarrow> valid s ! unat (base + j))"
        with below show ?thesis by (auto simp: succ_le_iff)
      qed
    next
      case True
      with below inr res have tr: "unat (base + i) < length (tags s)"
        and ne: "tag \<noteq> tags s ! unat (base + i)"
        by (auto simp: scan_set.simps [of s base tag i iv] split: if_splits)
      with True below inr res have "scan_set s base tag (i + 1) iv = Inr (None, iv')"
        by (simp add: scan_set.simps [of s base tag i iv])
      moreover from True have "\<not> \<not> valid s ! unat (base + i)" by simp
      ultimately have "(iv' = iv \<and> (\<forall>j. i + 1 \<le> j \<and> j < associativity s \<longrightarrow> valid s ! unat (base + j)))
         \<or> (i + 1 \<le> iv' \<and> iv' < associativity s \<and> \<not> valid s ! unat (base + iv')
            \<and> (\<forall>j. iv' < j \<and> j < associativity s \<longrightarrow> valid s ! unat (base + j)))"
        using "1.IH"(2) [OF below inr _ tr ne] by blast
      then show ?thesis
      proof
        assume a: "iv' = iv \<and> (\<forall>j. i + 1 \<le> j \<and> j < associativity s \<longrightarrow> valid s ! unat (base + j))"
        have "valid s ! unat (base + j)" if "i \<le> j \<and> j < associativity s" for j
        proof (cases "j = i")
          case True
          with \<open>valid s ! unat (base + i)\<close> show ?thesis by simp
        next
          case False
          with that have "i < j" by auto
          with a that below show ?thesis by (simp add: succ_le_iff)
        qed
        with a show ?thesis by blast
      next
        assume "i + 1 \<le> iv' \<and> iv' < associativity s \<and> \<not> valid s ! unat (base + iv')
          \<and> (\<forall>j. iv' < j \<and> j < associativity s \<longrightarrow> valid s ! unat (base + j))"
        with below show ?thesis by (auto simp: succ_le_iff)
      qed
    qed
  qed
qed

lemma max_element_from_first_max:
  assumes "ys = pre @ xs" and "length pre = i" and "best < i" and "ys ! best = v"
    and "\<forall>j<i. ys ! j \<le>s v" and "\<forall>j<best. ys ! j <s v"
  shows "max_element_from xs best v i < length ys
       \<and> (\<forall>j<length ys. ys ! j \<le>s ys ! max_element_from xs best v i)
       \<and> (\<forall>j<max_element_from xs best v i. ys ! j <s ys ! max_element_from xs best v i)"
  using assms
proof (induction xs arbitrary: pre i best v)
  case Nil
  then show ?case by simp
next
  case (Cons x xs)
  have ys: "ys = (pre @ [x]) @ xs" and len: "length (pre @ [x]) = Suc i" and yi: "ys ! i = x"
    using Cons.prems(1,2) by (simp_all add: nth_append)
  show ?case
  proof (cases "v <s x")
    case True
    have "\<forall>j<Suc i. ys ! j \<le>s x"
    proof (intro allI impI)
      fix j assume "j < Suc i"
      show "ys ! j \<le>s x"
      proof (cases "j = i")
        case True
        with yi show ?thesis by simp
      next
        case False
        with \<open>j < Suc i\<close> Cons.prems(5) have "ys ! j \<le>s v" by simp
        with \<open>v <s x\<close> show ?thesis by (simp add: word_sle_eq word_sless_alt)
      qed
    qed
    moreover have "\<forall>j<i. ys ! j <s x"
    proof (intro allI impI)
      fix j assume "j < i"
      with Cons.prems(5) have "ys ! j \<le>s v" by simp
      with \<open>v <s x\<close> show "ys ! j <s x" by (simp add: word_sle_eq word_sless_alt)
    qed
    ultimately show ?thesis
      using Cons.IH [OF ys len _ yi] True by simp
  next
    case False
    have "\<forall>j<Suc i. ys ! j \<le>s v"
    proof (intro allI impI)
      fix j assume "j < Suc i"
      show "ys ! j \<le>s v"
      proof (cases "j = i")
        case True
        with yi False show ?thesis by (simp add: word_sle_eq word_sless_alt)
      next
        case False
        with \<open>j < Suc i\<close> Cons.prems(5) show ?thesis by simp
      qed
    qed
    then show ?thesis
      using Cons.IH [OF ys len _ Cons.prems(4) _ Cons.prems(6)] Cons.prems(3) False by simp
  qed
qed

lemma max_element_first_max:
  assumes "xs \<noteq> []"
  shows "max_element xs < length xs
       \<and> (\<forall>j<length xs. xs ! j \<le>s xs ! max_element xs)
       \<and> (\<forall>j<max_element xs. xs ! j <s xs ! max_element xs)"
proof -
  from assms obtain x rest where xs: "xs = x # rest" by (cases xs) auto
  have "max_element_from rest 0 x 1 < length xs
       \<and> (\<forall>j<length xs. xs ! j \<le>s xs ! max_element_from rest 0 x 1)
       \<and> (\<forall>j<max_element_from rest 0 x 1. xs ! j <s xs ! max_element_from rest 0 x 1)"
    by (rule max_element_from_first_max [where pre = "[x]"]) (simp_all add: xs)
  then show ?thesis by (simp add: max_element_def xs)
qed

lemma find_line_miss:
  assumes "find_line s base tag = Inr (False, index)"
  obtains iv where "scan_set s base tag 0 (- 1) = Inr (None, iv)"
    and "choose_index s base None iv = Inr index"
proof -
  from assms obtain found iv where sc: "scan_set s base tag 0 (- 1) = Inr (found, iv)"
    by (cases "scan_set s base tag 0 (- 1)") (auto simp: find_line_def)
  with assms obtain ix where ch: "choose_index s base found iv = Inr ix"
    by (cases "choose_index s base found iv") (auto simp: find_line_def)
  with sc assms have "found = None" and "ix = index" by (simp_all add: find_line_def)
  with sc ch that show thesis by simp
qed

lemma nonneg_below_half: "(x :: i32) < a \<Longrightarrow> a \<le> 2 ^ 31 \<Longrightarrow> 0 \<le>s x"
proof -
  assume "x < a" and "a \<le> 2 ^ 31"
  then have "x < 2 ^ 31" by simp
  then have "uint x < 2 ^ 31" by (simp add: word_less_def)
  then have "sint x = uint x" by (rule sint_small)
  then show ?thesis by (simp add: word_sle_eq)
qed

text \<open>
  Claim C5, amended. On a miss in a set that contains an invalid line, with an
  associativity of at most \<open>2 ^ 31\<close> (so that every slot index fits the \<open>int\<close> that
  holds it), the line chosen is the last invalid slot in scan order: it is a slot of the
  set, it is invalid, and every later slot of the set is valid. So no valid line is
  replaced while the set has an invalid one.
\<close>

theorem miss_takes_last_invalid_line:
  assumes "find_line s base tag = Inr (False, index)"
    and "\<exists>i. i < associativity s \<and> \<not> valid s ! unat (base + i)"
    and "associativity s \<le> 2 ^ 31"
  shows "index < associativity s \<and> \<not> valid s ! unat (base + index)
       \<and> (\<forall>j. index < j \<and> j < associativity s \<longrightarrow> valid s ! unat (base + j))"
proof -
  from assms(1) obtain iv where sc: "scan_set s base tag 0 (- 1) = Inr (None, iv)"
    and ch: "choose_index s base None iv = Inr index"
    by (rule find_line_miss)
  from scan_set_miss [OF sc] assms(2)
  have last: "iv < associativity s \<and> \<not> valid s ! unat (base + iv)
       \<and> (\<forall>j. iv < j \<and> j < associativity s \<longrightarrow> valid s ! unat (base + j))"
    by auto
  then have "0 \<le>s iv" using assms(3) by (auto intro: nonneg_below_half)
  with ch have "index = iv" by (simp add: choose_index_def)
  with last show ?thesis by simp
qed

text \<open>
  Claim C6. On a miss in a set whose lines are all valid, the line chosen is a slot of
  the set whose rank is greatest in the set (as \<open>int\<close>s), and every slot before it has
  a strictly smaller rank: it is the first maximum in scan order.
\<close>

theorem full_set_evicts_first_maximum:
  assumes "find_line s base tag = Inr (False, index)"
    and "\<forall>i. i < associativity s \<longrightarrow> valid s ! unat (base + i)"
    and "associativity s \<noteq> 0"
  shows "unat index < unat (associativity s)
       \<and> (\<forall>j < unat (associativity s).
             priority s ! (unat base + j) \<le>s priority s ! (unat base + unat index))
       \<and> (\<forall>j < unat index.
             priority s ! (unat base + j) <s priority s ! (unat base + unat index))"
proof -
  let ?n = "unat (associativity s)"
  let ?lp = "local_priority s base"
  let ?k = "max_element ?lp"
  from assms(1) obtain iv where sc: "scan_set s base tag 0 (- 1) = Inr (None, iv)"
    and ch: "choose_index s base None iv = Inr index"
    by (rule find_line_miss)
  from scan_set_miss [OF sc] assms(2) have "iv = - 1" by auto
  with ch have fits: "unat base + ?n \<le> length (priority s)" and ix: "index = of_nat ?k"
    by (auto simp: choose_index_def split: if_splits)
  from fits have len: "length ?lp = ?n" by (simp add: local_priority_def)
  from assms(3) have "?n \<noteq> 0" by (simp add: unat_eq_0)
  with len have "?lp \<noteq> []" by auto
  from max_element_first_max [OF this] len
  have k: "?k < ?n" and ge: "\<forall>j<?n. ?lp ! j \<le>s ?lp ! ?k" and gt: "\<forall>j<?k. ?lp ! j <s ?lp ! ?k"
    by simp_all
  have nth: "?lp ! j = priority s ! (unat base + j)" if "j < ?n" for j
    using that fits by (simp add: local_priority_def)
  have "?n < 2 ^ 32" using unsigned_less [of "associativity s"] by simp
  with k ix have u: "unat index = ?k" by (simp add: unat_of_nat)
  from k ge gt show ?thesis unfolding u by (simp add: nth)
qed

lemma popcount_1: "popcount 1 = 1"
  using popcount_mask [of 1] by simp

lemma replicate_4: "replicate 4 x = [x, x, x, x]"
  by (simp add: numeral_Bit0 [of "num.Bit0 num.One"] numeral_2_eq_2)

lemma two_way_sim_constructed: "CacheSim 16 2 64 30 2 = Inr two_way_sim"
  by (simp add: CacheSim_def Let_def popcount_15 popcount_1 two_way_sim_def replicate_4)

text \<open>
  Claim C5 as stated fails on the freshly constructed two-way simulator: both lines of
  set 0 are invalid, and the miss of address \<open>0x20\<close> (set 0, tag 1) takes slot 1, not
  slot 0, so the tag lands in the second line.
\<close>

theorem miss_skips_first_invalid_line:
  "CacheSim 16 2 64 30 2 = Inr two_way_sim
   \<and> find_line two_way_sim 0 1 = Inr (False, 1)
   \<and> map_sum id (tags \<circ> snd) (probe two_way_sim False 0x20) = Inr [0, 1, 0, 0]"
  by (simp add: two_way_sim_constructed probe_def get_set_def get_tag_def find_line_def
      choose_index_def access_line_def transform_priority_def bump_def Let_def
      scan_set.simps word_sle_eq two_way_sim_def)

lemma find_line_four_way_partial: "find_line four_way_partial 0 20 = Inr (False, 2)"
  by (simp add: find_line_def choose_index_def scan_set.simps word_sle_eq
      four_way_partial_def four_way_full_def)

theorem miss_takes_last_invalid_line_witness:
  "find_line four_way_partial 0 20 = Inr (False, 2)
   \<and> (0 :: u32) < associativity four_way_partial \<and> \<not> valid four_way_partial ! unat (0 + 0 :: u32)
   \<and> associativity four_way_partial \<le> 2 ^ 31
   \<and> (2 :: i32) < associativity four_way_partial
   \<and> \<not> valid four_way_partial ! unat (0 + 2 :: u32)
   \<and> valid four_way_partial ! unat (0 + 3 :: u32)"
proof -
  have h2: "\<exists>i. i < associativity four_way_partial \<and> \<not> valid four_way_partial ! unat (0 + i)"
    by (rule exI [of _ 0]) (simp add: four_way_partial_def four_way_full_def)
  have h3: "associativity four_way_partial \<le> 2 ^ 31"
    by (simp add: four_way_partial_def four_way_full_def)
  from miss_takes_last_invalid_line [OF find_line_four_way_partial h2 h3]
  have "valid four_way_partial ! unat (0 + 3 :: u32)"
    by (simp add: four_way_partial_def four_way_full_def)
  with miss_takes_last_invalid_line [OF find_line_four_way_partial h2 h3]
    find_line_four_way_partial h3
  show ?thesis by (simp add: four_way_partial_def four_way_full_def)
qed

lemma find_line_four_way_tied: "find_line four_way_tied 0 20 = Inr (False, 1)"
  by (simp add: find_line_def choose_index_def scan_set.simps max_element_def local_priority_def
      word_sle_eq word_sless_alt four_way_tied_def four_way_full_def)

lemma below_4_cases: "(i :: u32) < 4 \<Longrightarrow> i = 0 \<or> i = 1 \<or> i = 2 \<or> i = 3"
proof -
  assume "i < 4"
  then have "unat i < 4" by (simp add: word_less_nat_alt)
  then have "unat i = 0 \<or> unat i = 1 \<or> unat i = 2 \<or> unat i = 3" by arith
  then have "unat i = unat (0 :: u32) \<or> unat i = unat (1 :: u32)
      \<or> unat i = unat (2 :: u32) \<or> unat i = unat (3 :: u32)" by simp
  then show ?thesis by (simp only: word_unat_eq_iff [symmetric])
qed

theorem full_set_evicts_first_maximum_witness:
  "find_line four_way_tied 0 20 = Inr (False, 1)
   \<and> valid four_way_tied = [True, True, True, True]
   \<and> associativity four_way_tied \<noteq> 0
   \<and> unat (1 :: i32) < unat (associativity four_way_tied)
   \<and> priority four_way_tied ! (unat (0 :: u32) + 3) \<le>s priority four_way_tied ! (unat (0 :: u32) + unat (1 :: i32))
   \<and> priority four_way_tied ! (unat (0 :: u32) + 0) <s priority four_way_tied ! (unat (0 :: u32) + unat (1 :: i32))"
proof -
  have h2: "\<forall>i. i < associativity four_way_tied \<longrightarrow> valid four_way_tied ! unat (0 + i)"
  proof (intro allI impI)
    fix i :: u32
    assume "i < associativity four_way_tied"
    then have "i < 4" by (simp add: four_way_tied_def four_way_full_def)
    then have "i = 0 \<or> i = 1 \<or> i = 2 \<or> i = 3" by (rule below_4_cases)
    then show "valid four_way_tied ! unat (0 + i)"
      by (auto simp: four_way_tied_def four_way_full_def)
  qed
  have h3: "associativity four_way_tied \<noteq> 0"
    by (simp add: four_way_tied_def four_way_full_def)
  from full_set_evicts_first_maximum [OF find_line_four_way_tied h2 h3]
  have "priority four_way_tied ! (unat (0 :: u32) + 3) \<le>s priority four_way_tied ! (unat (0 :: u32) + unat (1 :: i32))"
    and "priority four_way_tied ! (unat (0 :: u32) + 0) <s priority four_way_tied ! (unat (0 :: u32) + unat (1 :: i32))"
    and "unat (1 :: i32) < unat (associativity four_way_tied)"
    by (simp_all add: four_way_tied_def four_way_full_def)
  with find_line_four_way_tied h3 show ?thesis
    by (simp add: four_way_tied_def four_way_full_def)
qed

subsection \<open>The rank update\<close>

lemmas probe_unfold =
  probe_def get_set_def get_tag_def find_line_def choose_index_def access_line_def
  transform_priority_def bump_def local_priority_def max_element_def Let_def
  scan_set.simps word_sle_eq word_sless_alt

lemma upt_0_4: "[0..<4] = [0, 1, 2, 3]"
  by code_simp

text \<open>
  On a simulator with valid lines the order of the transform shows. A hit on slot 0 of
  \<open>four_way_full\<close> (address \<open>0xA0\<close>, tag 10, ranks 1, 2, 0, 3) leaves the ranks
  0, 3, 1, 3: once the transform has passed slot 0 its lambda compares against the rank
  it has just written there (2) and so raises slot 1 as well, where the update as the
  specification words it leaves 0, 2, 1, 3. A hit on slot 1 (address \<open>0xB0\<close>, tag 11)
  leaves 2, 0, 1, 4, which is no permutation of 0 to 3. No run of the program reaches
  such a simulator, since no statement sets a valid flag; these two lemmas only record
  what \<open>probe\<close> would do there.
\<close>

lemma hit_on_first_slot_raises_next_rank:
  "map_sum id fst (probe four_way_full False 0xA0) = Inr (True, False, 0)
   \<and> map_sum id (priority \<circ> snd) (probe four_way_full False 0xA0) = Inr [0, 3, 1, 3]
   \<and> spec_priority_update 4 0 0 (priority four_way_full) = [0, 2, 1, 3]"
  by (simp add: probe_unfold spec_priority_update_def four_way_full_def upt_0_4)

lemma hit_on_second_slot_leaves_no_permutation:
  "valid four_way_full = [True, True, True, True]
   \<and> mset (priority four_way_full) = mset [0, 1, 2, 3]
   \<and> map_sum id fst (probe four_way_full False 0xB0) = Inr (True, False, 0)
   \<and> map_sum id (priority \<circ> snd) (probe four_way_full False 0xB0) = Inr [2, 0, 1, 4]
   \<and> mset [2, 0, 1, 4 :: i32] \<noteq> mset [0, 1, 2, 3]"
  by (simp add: probe_unfold four_way_full_def upt_0_4)
















subsection \<open>Probes of a well-formed simulator return\<close>

text \<open>
  The constructor returns a well-formed simulator when the associativity is at most
  \<open>2 ^ 31\<close>, \<open>block_size * associativity\<close> does not wrap and is at most the capacity
  (so there is at least one set). On a well-formed simulator no access of \<open>probe\<close>
  leaves the vectors, whatever the address, and so every run over every trace returns.
\<close>

lemma get_set_masked: "get_set s address = ucast (drop_bit (unat (set_offset s)) address) AND set_mask s"
  by (rule bit_eqI) (auto simp: get_set_def Let_def bit_simps)

lemma get_set_le_mask: "unat (get_set s address) \<le> unat (set_mask s)"
  by (simp add: get_set_masked word_and_le1 flip: word_le_nat_alt)

lemma line_bound:
  fixes x n m k :: nat
  assumes "x \<le> m" and "k \<le> n"
  shows "x * n + k \<le> (m + 1) * n" and "k < n \<Longrightarrow> x * n + k < (m + 1) * n"
proof -
  from assms(1) have le: "x * n \<le> m * n" by (rule mult_le_mono1)
  have e: "(m + 1) * n = m * n + n" by simp
  from le assms(2) show "x * n + k \<le> (m + 1) * n" unfolding e by linarith
  from le show "x * n + k < (m + 1) * n" if "k < n" using that unfolding e by linarith
qed

lemma set_lines_in_range:
  assumes wf: "well_formed s" and i: "unat i \<le> unat (associativity s)"
  shows "unat (get_set s address * associativity s) = unat (get_set s address) * unat (associativity s)"
    and "unat (get_set s address * associativity s) + unat i \<le> length (valid s)"
    and "i < associativity s \<Longrightarrow>
           unat (get_set s address * associativity s + i) < length (valid s)"
proof -
  let ?set = "get_set s address"
  let ?a = "associativity s"
  note le_mask = get_set_le_mask [of s address]
  from line_bound(1) [OF le_mask i] wf
  have le: "unat ?set * unat ?a + unat i \<le> length (valid s)"
    and lt: "unat ?set * unat ?a + unat i < 2 ^ 32"
    by (simp_all add: well_formed_def)
  from lt have "unat ?set * unat ?a < 2 ^ LENGTH(32)" by simp
  then show m: "unat (?set * ?a) = unat ?set * unat ?a"
    by (simp only: unat_mult_lem [THEN iffD1])
  with le show "unat (?set * ?a) + unat i \<le> length (valid s)" by simp
  show "unat (?set * ?a + i) < length (valid s)" if "i < ?a"
  proof -
    from that have "unat i < unat ?a" by (simp add: word_less_nat_alt)
    from line_bound(2) [OF le_mask i this] wf
    have "unat ?set * unat ?a + unat i < length (valid s)" by (simp add: well_formed_def)
    moreover from lt m have "unat (?set * ?a) + unat i < 2 ^ LENGTH(32)" by simp
    then have "unat (?set * ?a + i) = unat (?set * ?a) + unat i"
      by (simp only: unat_add_lem [THEN iffD1])
    ultimately show ?thesis using m by simp
  qed
qed


lemma scan_set_total:
  "(\<forall>j. i \<le> j \<and> j < associativity s \<longrightarrow>
        unat (base + j) < length (valid s) \<and> unat (base + j) < length (tags s))
   \<Longrightarrow> iv = - 1 \<or> iv < associativity s
   \<Longrightarrow> \<exists>found iv'. scan_set s base tag i iv = Inr (found, iv')
         \<and> (\<forall>k. found = Some k \<longrightarrow> k < associativity s)
         \<and> (iv' = - 1 \<or> iv' < associativity s)"
proof (induction s base tag i iv rule: scan_set.induct)
  case (1 s base tag i iv)
  show ?case
  proof (cases "i < associativity s")
    case False
    with "1.prems"(2) show ?thesis by (simp add: scan_set.simps [of s base tag i iv])
  next
    case below: True
    with "1.prems"(1) have inr: "unat (base + i) < length (valid s)"
      and tr: "unat (base + i) < length (tags s)" by simp_all
    have later: "\<forall>j. i + 1 \<le> j \<and> j < associativity s \<longrightarrow>
        unat (base + j) < length (valid s) \<and> unat (base + j) < length (tags s)"
      using "1.prems"(1) below by (auto simp: succ_le_iff)
    show ?thesis
    proof (cases "valid s ! unat (base + i)")
      case False
      from "1.IH"(1) [OF below inr False later] below
      show ?thesis using False inr by (simp add: scan_set.simps [of s base tag i iv])
    next
      case True
      show ?thesis
      proof (cases "tag = tags s ! unat (base + i)")
        case same: True
        with True below inr tr have "scan_set s base tag i iv = Inr (Some i, iv)"
          by (subst scan_set.simps) simp
        with below "1.prems"(2) show ?thesis by simp
      next
        case False
        from True have "\<not> \<not> valid s ! unat (base + i)" by simp
        from "1.IH"(2) [OF below inr this tr False later "1.prems"(2)]
        show ?thesis using True False below inr tr
          by (simp add: scan_set.simps [of s base tag i iv])
      qed
    qed
  qed
qed

lemma length_transform_priority: "length (transform_priority a b pos pr) = length pr"
proof -
  have "length (fold (\<lambda>k pr. bump a pos pr (b + k)) ks pr) = length pr" for ks
    by (induction ks arbitrary: pr) (simp_all add: bump_def Let_def)
  then show ?thesis by (simp add: transform_priority_def)
qed

lemma find_line_total:
  assumes wf: "well_formed s"
  shows "\<exists>hit index. find_line s (get_set s address * associativity s) tag = Inr (hit, index)
           \<and> index < associativity s"
proof -
  let ?base = "get_set s address * associativity s"
  let ?a = "associativity s"
  have "\<forall>j. 0 \<le> j \<and> j < ?a \<longrightarrow>
        unat (?base + j) < length (valid s) \<and> unat (?base + j) < length (tags s)"
    using set_lines_in_range(3) [OF wf] wf
    by (simp add: well_formed_def word_less_nat_alt)
  from scan_set_total [OF this, of "- 1" tag]
  obtain found iv where sc: "scan_set s ?base tag 0 (- 1) = Inr (found, iv)"
    and hit: "\<forall>k. found = Some k \<longrightarrow> k < ?a" and iv: "iv = - 1 \<or> iv < ?a"
    by auto
  from wf have a31: "?a \<le> 2 ^ 31" and a0: "?a \<noteq> 0" by (simp_all add: well_formed_def)
  have fits: "unat ?base + unat ?a \<le> length (priority s)"
    using set_lines_in_range(2) [OF wf, of ?a address] wf by (simp add: well_formed_def)
  have "\<exists>index. choose_index s ?base found iv = Inr index \<and> index < ?a"
  proof (cases found)
    case (Some k)
    with hit show ?thesis by (simp add: choose_index_def)
  next
    case None
    show ?thesis
    proof (cases "0 \<le>s iv")
      case True
      with iv have "iv < ?a" by (auto simp: word_sle_eq)
      with True None show ?thesis by (simp add: choose_index_def)
    next
      case False
      let ?lp = "local_priority s ?base"
      from fits have len: "length ?lp = unat ?a" by (simp add: local_priority_def)
      with a0 have "?lp \<noteq> []" by (auto simp: unat_eq_0)
      from max_element_first_max [OF this] len have k: "max_element ?lp < unat ?a" by simp
      then have "(of_nat (max_element ?lp) :: u32) < ?a"
        by (simp add: word_less_nat_alt unat_of_nat)
      with False None fits show ?thesis by (simp add: choose_index_def)
    qed
  qed
  with sc show ?thesis by (auto simp: find_line_def)
qed

lemma access_line_total:
  assumes wf: "well_formed s" and ix: "index < associativity s"
  shows "\<exists>r s'. access_line s (get_set s address * associativity s) tag type hit index = Inr (r, s')
           \<and> well_formed s'"
proof -
  let ?base = "get_set s address * associativity s"
  let ?a = "associativity s"
  from wf have a31: "?a \<le> 2 ^ 31" by (simp add: well_formed_def)
  from ix a31 have nonneg: "0 \<le>s index" by (rule nonneg_below_half)
  from ix have "unat index < unat ?a" by (simp add: word_less_nat_alt)
  with set_lines_in_range(2) [OF wf, of ?a address]
  have pos: "unat ?base + unat index < length (valid s)"
    and fits: "unat ?base + unat ?a \<le> length (valid s)" by simp_all
  with wf nonneg ix show ?thesis
    by (simp add: access_line_def Let_def well_formed_def length_transform_priority)
qed

lemma probe_total:
  assumes "well_formed s"
  shows "\<exists>r s'. probe s type address = Inr (r, s') \<and> well_formed s'"
proof -
  from find_line_total [OF assms, of address "get_tag s address"]
  obtain hit index where
    f: "find_line s (get_set s address * associativity s) (get_tag s address) = Inr (hit, index)"
    and ix: "index < associativity s" by auto
  from access_line_total [OF assms ix, of address "get_tag s address" type hit] f
  show ?thesis by (simp add: probe_def Let_def)
qed

lemma update_stats_well_formed: "well_formed (update_stats s n type hit wb cyc) = well_formed s"
  by (simp add: update_stats_def well_formed_def)

lemma run_total: "well_formed s \<Longrightarrow> \<exists>s'. run s trace = Inr s' \<and> well_formed s'"
proof (induction trace arbitrary: s)
  case Nil
  then show ?case by simp
next
  case (Cons x trace)
  obtain type address n where x: "x = (type, address, n)" by (cases x) auto
  from probe_total [OF Cons.prems, of type address]
  obtain hit wb cyc s1 where p: "probe s type address = Inr ((hit, wb, cyc), s1)"
    and wf1: "well_formed s1" by auto
  from wf1 have "well_formed (update_stats s1 n type hit wb (ucast cyc))"
    by (simp add: update_stats_well_formed)
  from Cons.IH [OF this] p x show ?case by simp
qed


lemma CacheSim_well_formed:
  assumes ctor: "CacheSim bs a c mp wbp = Inr s"
    and a31: "a \<le> 2 ^ 31"
    and small: "unat bs * unat a < 2 ^ 32"
    and fits: "unat bs * unat a \<le> unat c"
  shows "well_formed s"
proof -
  let ?sets = "c div (bs * a)"
  from ctor have bs0: "bs \<noteq> 0" and ba0: "bs * a \<noteq> 0" by (rule CacheSim_Inr)+
  then have a0: "a \<noteq> 0" by auto
  from small have "unat bs * unat a < 2 ^ LENGTH(32)" by simp
  then have prod: "unat (bs * a) = unat bs * unat a" by (simp only: unat_mult_lem [THEN iffD1])
  from ba0 have "0 < unat (bs * a)" by (simp add: unat_gt_0)
  with prod have pos: "0 < unat bs * unat a" by simp
  have sets: "unat ?sets = unat c div (unat bs * unat a)" by (simp add: unat_div prod)
  with fits pos have "0 < unat ?sets" by (simp add: div_greater_zero_iff)
  then have "?sets \<noteq> 0" by (simp add: unat_gt_0)
  then have "unat (?sets - 1) + 1 = unat ?sets"
    by (metis Suc_eq_plus1 add.commute diff_add_cancel unatSuc)
  moreover have "unat ?sets * unat a \<le> unat c div unat bs"
  proof -
    have "unat ?sets * (unat bs * unat a) \<le> unat c" by (simp add: sets)
    then have "unat ?sets * unat a * unat bs \<le> unat c" by (simp add: ac_simps)
    moreover from bs0 have "0 < unat bs" by (simp add: unat_gt_0)
    ultimately show ?thesis by (simp add: less_eq_div_iff_mult_less_eq)
  qed
  moreover have "unat (c div bs) < 2 ^ 32" using unsigned_less [of "c div bs"] by simp
  moreover from ctor have "associativity s = a" "set_mask s = ?sets - 1"
    "length (valid s) = unat (c div bs)" "length (tags s) = unat (c div bs)"
    "length (dirty s) = unat (c div bs)" "length (priority s) = unat (c div bs)"
    by (auto simp: CacheSim_def Let_def split: if_splits)
  ultimately show ?thesis using a0 a31 by (simp add: well_formed_def unat_div)
qed

lemma constructed_run_total:
  assumes "CacheSim bs a c mp wbp = Inr s0"
    and "a \<le> 2 ^ 31" and "unat bs * unat a < 2 ^ 32" and "unat bs * unat a \<le> unat c"
  shows "\<exists>s. run s0 trace = Inr s"
  using run_total [OF CacheSim_well_formed [OF assms]] by blast

subsection \<open>Construction does not validate the geometry\<close>

text \<open>
  Claim C9 as stated fails: a block size of 3 with capacity 10 is neither a power of two
  nor a divisor of the capacity, and the constructor returns a simulator for it, which
  then serves a probe.
\<close>

theorem construction_accepts_odd_geometry:
  "CacheSim 3 1 10 30 2 = Inr odd_sim
   \<and> map_sum id fst (probe odd_sim False 0) = Inr (False, False, 30)"
  by (simp add: odd_sim_constructed probe_def get_set_def get_tag_def find_line_def
      choose_index_def access_line_def transform_priority_def bump_def Let_def
      scan_set.simps odd_sim_def)

text \<open>
  Claim C9, amended. The constructor validates nothing about the geometry: whenever the
  two divisors \<open>block_size\<close> and \<open>block_size * associativity\<close> (as an \<open>unsigned\<close>
  product) are non-zero it returns a simulator with the settings as given, the mask
  \<open>capacity / (block_size * associativity) - 1\<close> and \<open>capacity / block_size\<close> lines,
  both quotients truncated. When moreover the associativity is at most \<open>2 ^ 31\<close> and the
  product does not wrap and is at most the capacity, every trace is simulated on that
  simulator to its end, whether or not the settings are powers of two or divide evenly.
\<close>

theorem construction_checks_divisors_only:
  assumes "bs \<noteq> 0" and "bs * a \<noteq> 0"
  shows "\<exists>s. CacheSim bs a c mp wbp = Inr s
           \<and> block_size s = bs \<and> associativity s = a \<and> capacity s = c
           \<and> set_mask s = c div (bs * a) - 1
           \<and> length (tags s) = unat (c div bs) \<and> length (dirty s) = unat (c div bs)
           \<and> length (valid s) = unat (c div bs) \<and> length (priority s) = unat (c div bs)
           \<and> (a \<le> 2 ^ 31 \<and> unat bs * unat a < 2 ^ 32 \<and> unat bs * unat a \<le> unat c
                \<longrightarrow> (\<exists>s'. run s trace = Inr s'))"
proof -
  from assms obtain s where ctor: "CacheSim bs a c mp wbp = Inr s"
    by (simp add: CacheSim_def Let_def)
  then have "block_size s = bs \<and> associativity s = a \<and> capacity s = c
           \<and> set_mask s = c div (bs * a) - 1
           \<and> length (tags s) = unat (c div bs) \<and> length (dirty s) = unat (c div bs)
           \<and> length (valid s) = unat (c div bs) \<and> length (priority s) = unat (c div bs)"
    by (auto simp: CacheSim_def Let_def split: if_splits)
  moreover have "\<exists>s'. run s trace = Inr s'"
    if "a \<le> 2 ^ 31 \<and> unat bs * unat a < 2 ^ 32 \<and> unat bs * unat a \<le> unat c"
    using that constructed_run_total [OF ctor] by blast
  ultimately show ?thesis using ctor by blast
qed

theorem construction_checks_divisors_only_witness:
  "(3 :: u32) \<noteq> 0 \<and> (3 :: u32) * 1 \<noteq> 0
   \<and> (1 :: u32) \<le> 2 ^ 31 \<and> unat (3 :: u32) * unat (1 :: u32) < 2 ^ 32
   \<and> unat (3 :: u32) * unat (1 :: u32) \<le> unat (10 :: u32)
   \<and> (\<exists>s. CacheSim 3 1 10 30 2 = Inr s
           \<and> block_size s = 3 \<and> associativity s = 1 \<and> capacity s = 10
           \<and> set_mask s = 2
           \<and> length (tags s) = 3 \<and> length (dirty s) = 3
           \<and> length (valid s) = 3 \<and> length (priority s) = 3
           \<and> (\<exists>s'. run s [(False, 0, 1), (True, 6, 1)] = Inr s'))"
proof -
  have h1: "(3 :: u32) \<noteq> 0" by simp
  have h2: "(3 :: u32) * 1 \<noteq> 0" by simp
  show ?thesis
    using construction_checks_divisors_only [OF h1 h2, of 10 30 2 "[(False, 0, 1), (True, 6, 1)]"]
    by simp
qed

subsection \<open>The report divides without a guard\<close>

text \<open>
  Claim C10 as stated fails on the empty trace: the simulator of \<open>main\<close> reports with
  zero accesses and zero cycles, both divisions are performed, and both statistics are
  NaN, where the specification's \<open>derive\<close> reports them as undefined.
\<close>

theorem dump_stats_divides_by_zero:
  "run main_sim [] = Inr main_sim
   \<and> dump_stats main_sim = (NaN, NaN)
   \<and> spec_derive main_sim = (None, None)"
  by (simp add: dump_stats_def spec_derive_def double_div_def times_100_def main_sim_def)

text \<open>
  Claim C10, amended. The report performs both divisions whatever the counters are:
  with a total access count of zero the miss rate is NaN when the miss count is zero
  too and an infinity otherwise, and with a cycle count of zero the instructions per
  cycle are NaN when the instruction count is zero and an infinity otherwise.
\<close>

theorem dump_stats_has_no_guard:
  "(mem_accesses_stat s = 0 \<longrightarrow>
      fst (dump_stats s) = (if misses_stat s = 0 then NaN else Infinity (sint (misses_stat s) < 0)))
   \<and> (cycles_stat s = 0 \<longrightarrow>
      snd (dump_stats s)
        = (if instructions_stat s = 0 then NaN else Infinity (sint (instructions_stat s) < 0)))"
  by (simp add: dump_stats_def double_div_def times_100_def)

lemma free_miss_sim_run:
  "CacheSim 16 1 16384 0 0 = Inr (main_sim\<lparr> miss_penalty := 0, dirty_wb_penalty := 0 \<rparr>)"
  "run (main_sim\<lparr> miss_penalty := 0, dirty_wb_penalty := 0 \<rparr>) [(False, 0, 5)] = Inr free_miss_sim"
  by (simp_all add: CacheSim_def popcount_15 popcount_1023 probe_def get_set_def get_tag_def
      find_line_def choose_index_def access_line_def transform_priority_def bump_def Let_def
      scan_set.simps update_stats_def free_miss_sim_def main_sim_def list_update_same_conv)

theorem dump_stats_has_no_guard_witness:
  "CacheSim 16 1 16384 30 2 = Inr main_sim \<and> run main_sim [] = Inr main_sim
   \<and> mem_accesses_stat main_sim = 0 \<and> cycles_stat main_sim = 0
   \<and> dump_stats main_sim = (NaN, NaN)
   \<and> run (main_sim\<lparr> miss_penalty := 0, dirty_wb_penalty := 0 \<rparr>) [(False, 0, 5)] = Inr free_miss_sim
   \<and> cycles_stat free_miss_sim = 0
   \<and> snd (dump_stats free_miss_sim) = Infinity False"
proof -
  have z: "mem_accesses_stat main_sim = 0" "cycles_stat main_sim = 0"
    "misses_stat main_sim = 0" "instructions_stat main_sim = 0"
    by (simp_all add: main_sim_def)
  have f: "cycles_stat free_miss_sim = 0" "instructions_stat free_miss_sim = 5"
    by (simp_all add: free_miss_sim_def main_sim_def)
  from dump_stats_has_no_guard [of main_sim] z
  have "dump_stats main_sim = (NaN, NaN)" by (simp add: prod_eq_iff)
  moreover from dump_stats_has_no_guard [of free_miss_sim] f
  have "snd (dump_stats free_miss_sim) = Infinity False" by simp
  ultimately show ?thesis using main_sim_constructed free_miss_sim_run(2) z f by simp
qed

end
